theory Spec2Isabelle
  imports Complex_Main "HOL-Library.Word"
begin

unbundle bit_operations_syntax

section \<open>The binary-to-text transport (\<open>btoa\<close>, \<open>atob\<close>, \<open>encode\<close>, \<open>decode\<close>)\<close>

text \<open>
  \<open>geminiService.ts\<close> moves PCM bytes through the platform's \<open>btoa\<close> and \<open>atob\<close>.
  Both are browser built-ins, so they are written out here after their standard
  (RFC 4648 alphabet; \<open>atob\<close> is the forgiving decoder of the HTML standard).
  A JavaScript binary string, all of whose code units are below 256, is a \<open>string\<close>:
  an Isabelle \<open>char\<close> is exactly one such code unit. (Text with a code unit above
  255 is outside the alphabet and is rejected by \<open>atob\<close> like any other foreign
  character.)
\<close>

definition b64_alphabet :: string where
  "b64_alphabet = ''ABCDEFGHIJKLMNOPQRSTUVWXYZabcdefghijklmnopqrstuvwxyz0123456789+/''"

definition b64_char :: "nat \<Rightarrow> char" where
  "b64_char n = b64_alphabet ! n"

fun index_of :: "char \<Rightarrow> string \<Rightarrow> nat option" where
  "index_of c [] = None"
| "index_of c (x # xs) = (if c = x then Some 0 else map_option Suc (index_of c xs))"

definition b64_index :: "char \<Rightarrow> nat option" where
  "b64_index c = index_of c b64_alphabet"

text \<open>Three bytes make 24 bits, read as four 6-bit groups; a last group of one or two
  bytes is filled with zero bits and yields two or three groups.\<close>

fun to_sextets :: "string \<Rightarrow> nat list" where
  "to_sextets (a # b # c # rest) =
     (let n = of_char a * 65536 + of_char b * 256 + of_char c in
      [n div 262144, n div 4096 mod 64, n div 64 mod 64, n mod 64] @ to_sextets rest)"
| "to_sextets [a, b] =
     (let n = of_char a * 65536 + of_char b * 256 in
      [n div 262144, n div 4096 mod 64, n div 64 mod 64])"
| "to_sextets [a] =
     (let n = of_char a * 65536 in [n div 262144, n div 4096 mod 64])"
| "to_sextets [] = []"

definition btoa :: "string \<Rightarrow> string" where
  "btoa binary =
     map b64_char (to_sextets binary) @ replicate ((3 - length binary mod 3) mod 3) CHR ''=''"

fun from_sextets :: "nat list \<Rightarrow> string" where
  "from_sextets (a # b # c # d # rest) =
     (let n = ((a * 64 + b) * 64 + c) * 64 + d in
      [char_of (n div 65536), char_of (n div 256 mod 256), char_of (n mod 256)]
        @ from_sextets rest)"
| "from_sextets [a, b, c] =
     (let n = ((a * 64 + b) * 64 + c) div 4 in [char_of (n div 256), char_of (n mod 256)])"
| "from_sextets [a, b] = [char_of ((a * 64 + b) div 16)]"
| "from_sextets [a] = []"
| "from_sextets [] = []"

definition ascii_whitespace :: "char \<Rightarrow> bool" where
  "ascii_whitespace c \<longleftrightarrow> of_char c \<in> {9, 10, 12, 13, 32 :: nat}"

definition strip_padding :: "string \<Rightarrow> string" where
  "strip_padding d =
     (case rev d of
        x # y # r \<Rightarrow> if x = CHR ''='' then (if y = CHR ''='' then rev r else rev (y # r)) else d
      | [x] \<Rightarrow> if x = CHR ''='' then [] else d
      | [] \<Rightarrow> d)"

text \<open>\<open>atob\<close> throws \<open>InvalidCharacterError\<close> on text that is not base64: \<open>None\<close> here.\<close>

definition atob :: "string \<Rightarrow> string option" where
  "atob text =
     (let d = filter (\<lambda>c. \<not> ascii_whitespace c) text;
          d = (if length d mod 4 = 0 then strip_padding d else d)
      in if length d mod 4 = 1 then None
         else map_option from_sextets (those (map b64_index d)))"

type_synonym byte = "8 word"

text \<open>\<open>decode\<close>: \<open>bytes[i] = binaryString.charCodeAt(i)\<close> into a \<open>Uint8Array\<close>.\<close>

definition decode :: "string \<Rightarrow> byte list option" where
  "decode base64 = map_option (map (\<lambda>c. of_nat (of_char c))) (atob base64)"

text \<open>\<open>encode\<close>: \<open>binary += String.fromCharCode(bytes[i])\<close>, then \<open>btoa(binary)\<close>.\<close>

definition encode :: "byte list \<Rightarrow> string" where
  "encode bytes = btoa (map (\<lambda>b. char_of (unat b)) bytes)"


section \<open>The PCM codec (\<open>createPcmBlob\<close>, \<open>pcmToAudioBuffer\<close>)\<close>

text \<open>
  A JavaScript number as the codec sees it. The elements of a \<open>Float32Array\<close> are
  binary fractions with 24 significant bits, so their products with \<open>0x8000\<close> and
  \<open>0x7FFF\<close> have at most 39 significant bits and are exact in double precision, and
  an \<open>Int16\<close> divided by 32768 is exact in single precision: on these values the
  arithmetic of the code is the arithmetic of the reals.
\<close>

datatype number = Finite real | PosInf | NegInf | NaN

fun Math_min :: "number \<Rightarrow> number \<Rightarrow> number" where
  "Math_min NaN y = NaN"
| "Math_min x NaN = NaN"
| "Math_min NegInf y = NegInf"
| "Math_min x NegInf = NegInf"
| "Math_min PosInf y = y"
| "Math_min x PosInf = x"
| "Math_min (Finite a) (Finite b) = Finite (min a b)"

fun Math_max :: "number \<Rightarrow> number \<Rightarrow> number" where
  "Math_max NaN y = NaN"
| "Math_max x NaN = NaN"
| "Math_max PosInf y = PosInf"
| "Math_max x PosInf = PosInf"
| "Math_max NegInf y = y"
| "Math_max x NegInf = x"
| "Math_max (Finite a) (Finite b) = Finite (max a b)"

text \<open>\<open>x < y\<close>: false as soon as one side is \<open>NaN\<close>.\<close>

fun js_less :: "number \<Rightarrow> number \<Rightarrow> bool" where
  "js_less NaN y = False"
| "js_less x NaN = False"
| "js_less (Finite a) (Finite b) = (a < b)"
| "js_less NegInf y = (y \<noteq> NegInf)"
| "js_less x PosInf = (x \<noteq> PosInf)"
| "js_less x y = False"

fun js_times :: "number \<Rightarrow> number \<Rightarrow> number" where
  "js_times NaN y = NaN"
| "js_times x NaN = NaN"
| "js_times (Finite a) (Finite b) = Finite (a * b)"
| "js_times (Finite a) y =
     (if a = 0 then NaN else if (a < 0) = (y = PosInf) then NegInf else PosInf)"
| "js_times x (Finite b) =
     (if b = 0 then NaN else if (b < 0) = (x = PosInf) then NegInf else PosInf)"
| "js_times x y = (if x = y then PosInf else NegInf)"

definition trunc :: "real \<Rightarrow> int" where
  "trunc x = (if x < 0 then \<lceil>x\<rceil> else \<lfloor>x\<rfloor>)"

text \<open>Storing into an \<open>Int16Array\<close>: \<open>NaN\<close> and the infinities become 0, anything
  else is truncated towards zero and reduced modulo \<open>2^16\<close>.\<close>

fun ToInt16 :: "number \<Rightarrow> 16 word" where
  "ToInt16 (Finite x) = word_of_int (trunc x)"
| "ToInt16 x = 0"

text \<open>The body of the loop of \<open>createPcmBlob\<close>.\<close>

definition int16_of_sample :: "number \<Rightarrow> 16 word" where
  "int16_of_sample x =
     (let s = Math_max (Finite (- 1)) (Math_min (Finite 1) x)
      in ToInt16 (if js_less s (Finite 0) then js_times s (Finite 32768)
                  else js_times s (Finite 32767)))"

text \<open>\<open>new Uint8Array(int16.buffer)\<close>: the bytes of the samples in the byte order of the
  platform, which is little-endian wherever this code runs.\<close>

definition Uint8Array_of :: "16 word list \<Rightarrow> byte list" where
  "Uint8Array_of int16 = concat (map (\<lambda>w. [ucast w, ucast (drop_bit 8 w)]) int16)"

record pcm_blob =
  data :: string
  mimeType :: string

definition createPcmBlob :: "number list \<Rightarrow> pcm_blob" where
  "createPcmBlob d =
     \<lparr>data = encode (Uint8Array_of (map int16_of_sample d)),
      mimeType = ''audio/pcm;rate=16000''\<rparr>"

datatype js_error = InvalidCharacterError | RangeError | NotSupportedError

fun int16_view :: "byte list \<Rightarrow> 16 word list" where
  "int16_view (lo # hi # rest) = (ucast lo OR push_bit 8 (ucast hi)) # int16_view rest"
| "int16_view bytes = []"

text \<open>\<open>new Int16Array(bytes.buffer)\<close> throws a \<open>RangeError\<close> when the byte length of the
  buffer is not a multiple of 2.\<close>

definition Int16Array_of :: "byte list \<Rightarrow> js_error + 16 word list" where
  "Int16Array_of bytes = (if odd (length bytes) then Inl RangeError else Inr (int16_view bytes))"

record audio_buffer =
  channelData :: "real list"
  sampleRate :: nat

definition duration :: "audio_buffer \<Rightarrow> real" where
  "duration b = real (length (channelData b)) / real (sampleRate b)"

text \<open>\<open>ctx.createBuffer(1, length, sampleRate)\<close> throws a \<open>NotSupportedError\<close> when an
  argument is zero (Web Audio API). Every caller passes the rate 24000, inside the range
  that each implementation accepts.\<close>

definition createBuffer :: "nat \<Rightarrow> nat \<Rightarrow> js_error + audio_buffer" where
  "createBuffer len rate =
     (if len = 0 \<or> rate = 0 then Inl NotSupportedError
      else Inr \<lparr>channelData = replicate len 0, sampleRate = rate\<rparr>)"

definition pcmToAudioBuffer :: "string \<Rightarrow> nat \<Rightarrow> js_error + audio_buffer" where
  "pcmToAudioBuffer base64 rate =
     (case decode base64 of
        None \<Rightarrow> Inl InvalidCharacterError
      | Some bytes \<Rightarrow>
          (case Int16Array_of bytes of
             Inl e \<Rightarrow> Inl e
           | Inr dataInt16 \<Rightarrow>
               (case createBuffer (length dataInt16) rate of
                  Inl e \<Rightarrow> Inl e
                | Inr buffer \<Rightarrow>
                    Inr (buffer\<lparr>channelData :=
                           map (\<lambda>w. real_of_int (sint w) / 32768) dataInt16\<rparr>))))"

section \<open>The voice session (\<open>LiveVoiceInterface.tsx\<close>)\<close>

text \<open>
  An \<open>AudioBufferSourceNode\<close> once \<open>start(startTime)\<close> was called on it. The nodes
  created so far are kept in creation order, and a node is named by its position there.
\<close>

record source_node =
  buffer :: audio_buffer
  startTime :: real
  stopped :: bool

text \<open>
  The refs and the React state of the component. A nullable ref to a closure or to a
  context is a \<open>bool\<close> (set or \<open>null\<close>); \<open>outbound\<close> lists the blobs that
  \<open>sendAudioChunk\<close> has queued on the session promise for \<open>sendRealtimeInput\<close>, oldest
  first; \<open>console\<close> lists the messages of \<open>console.error\<close>. The reading of
  \<open>ctx.currentTime\<close> is an argument of every handler that takes one.
\<close>

record session =
  isActive :: bool
  status :: string
  error :: "string option"
  inputContext :: bool
  outputContext :: bool
  nextStartTime :: real
  audioQueue :: "nat list"
  sendAudio :: bool
  disconnect :: bool
  nodes :: "source_node list"
  outbound :: "pcm_blob list"
  console :: "string list"

definition onAudio :: "string \<Rightarrow> real \<Rightarrow> session \<Rightarrow> session" where
  "onAudio base64Audio currentTime s =
     (if \<not> outputContext s then s
      else case pcmToAudioBuffer base64Audio 24000 of
        Inl e \<Rightarrow> s\<lparr>console := console s @ [''Audio Decode Error'']\<rparr>
      | Inr buf \<Rightarrow>
          (let start = max currentTime (nextStartTime s);
               sourceNode = \<lparr>buffer = buf, startTime = start, stopped = False\<rparr>
           in s\<lparr>nextStartTime := start + duration buf,
                audioQueue := audioQueue s @ [length (nodes s)],
                nodes := nodes s @ [sourceNode]\<rparr>))"

text \<open>\<open>sourceNode.onended\<close>: \<open>indexOf\<close> and \<open>splice(idx, 1)\<close> drop the first occurrence.\<close>

definition onended :: "nat \<Rightarrow> session \<Rightarrow> session" where
  "onended sourceNode s = s\<lparr>audioQueue := remove1 sourceNode (audioQueue s)\<rparr>"

definition stop_node :: "nat \<Rightarrow> source_node list \<Rightarrow> source_node list" where
  "stop_node i ns = (if i < length ns then ns[i := (ns ! i)\<lparr>stopped := True\<rparr>] else ns)"

definition stopAllPlayback :: "real \<Rightarrow> session \<Rightarrow> session" where
  "stopAllPlayback currentTime s =
     (let s1 = s\<lparr>nodes := fold stop_node (audioQueue s) (nodes s), audioQueue := []\<rparr>
      in if outputContext s then s1\<lparr>nextStartTime := currentTime\<rparr> else s1)"

definition onInterrupted :: "real \<Rightarrow> session \<Rightarrow> session" where
  "onInterrupted currentTime s = stopAllPlayback currentTime s"



text \<open>The callbacks that reach the playback scheduler, and a run of them.\<close>

datatype event = Audio string real | Interrupted real | Ended nat

fun step :: "event \<Rightarrow> session \<Rightarrow> session" where
  "step (Audio base64Audio currentTime) s = onAudio base64Audio currentTime s"
| "step (Interrupted currentTime) s = onInterrupted currentTime s"
| "step (Ended sourceNode) s = onended sourceNode s"

fun is_interrupt :: "event \<Rightarrow> bool" where
  "is_interrupt (Interrupted t) = True"
| "is_interrupt e = False"

definition run :: "event list \<Rightarrow> session \<Rightarrow> session" where
  "run es s = fold step es s"

text \<open>The units that a run schedules: the nodes it adds to those present before.\<close>

definition scheduled :: "event list \<Rightarrow> session \<Rightarrow> source_node list" where
  "scheduled es s = drop (length (nodes s)) (nodes (run es s))"

text \<open>A run keeps pace when no chunk arrives after the cursor has been passed.\<close>

fun paced :: "event list \<Rightarrow> session \<Rightarrow> bool" where
  "paced [] s = True"
| "paced (Audio base64Audio currentTime # es) s =
     (currentTime \<le> nextStartTime s \<and> paced es (onAudio base64Audio currentTime s))"
| "paced (e # es) s = paced es (step e s)"

text \<open>Units laid out from a cursor on: each starts no earlier than the end of the one
  before (\<open>chained\<close>), or exactly there (\<open>abutting\<close>).\<close>

fun chained :: "real \<Rightarrow> source_node list \<Rightarrow> bool" where
  "chained c [] = True"
| "chained c (u # us) = (c \<le> startTime u \<and> chained (startTime u + duration (buffer u)) us)"

fun abutting :: "real \<Rightarrow> source_node list \<Rightarrow> bool" where
  "abutting c [] = True"
| "abutting c (u # us) = (startTime u = c \<and> abutting (startTime u + duration (buffer u)) us)"

text \<open>
  Two states of \<open>startSession\<close>, with the output clock at \<open>t0\<close> when the cursor was
  reset: \<open>connecting\<close>, while \<open>connectLiveDharma\<close> is awaited (the capture graph is
  wired, \<open>sendAudioRef\<close> is still \<open>null\<close>), and \<open>listening\<close>, once it has returned.
\<close>

definition connecting :: "real \<Rightarrow> session" where
  "connecting t0 =
     \<lparr>isActive = False, status = ''Connecting to DHARMA...'', error = None,
      inputContext = True, outputContext = True, nextStartTime = t0, audioQueue = [],
      sendAudio = False, disconnect = False, nodes = [], outbound = [], console = []\<rparr>"

definition listening :: "real \<Rightarrow> session" where
  "listening t0 =
     (connecting t0)\<lparr>sendAudio := True, disconnect := True, isActive := True,
                      status := ''Listening...''\<rparr>"

section \<open>The codec as the specification words it\<close>

text \<open>
  \<open>samplesToWire\<close> in the specification's words: clamp to \<open>[-1, 1]\<close>, scale negative
  values by 32768 and the others by 32767, truncate towards zero, pack the 16-bit two's
  complement value low byte first. The infinities clamp to \<open>\<plusminus>1\<close>; \<open>NaN\<close>, on which
  the specification is silent, is taken as silence.
\<close>

definition spec_clamp :: "real \<Rightarrow> real" where
  "spec_clamp x = (if x < - 1 then - 1 else if 1 < x then 1 else x)"

fun spec_int16 :: "number \<Rightarrow> int" where
  "spec_int16 (Finite x) =
     (let c = spec_clamp x; y = (if c < 0 then c * 32768 else c * 32767)
      in if y < 0 then - \<lfloor>- y\<rfloor> else \<lfloor>y\<rfloor>)"
| "spec_int16 PosInf = 32767"
| "spec_int16 NegInf = - 32768"
| "spec_int16 NaN = 0"

definition spec_le_bytes :: "int \<Rightarrow> byte list" where
  "spec_le_bytes v = [word_of_int (v mod 256), word_of_int (v div 256 mod 256)]"

definition spec_samplesToWire :: "number list \<Rightarrow> byte list" where
  "spec_samplesToWire samples = concat (map (\<lambda>x. spec_le_bytes (spec_int16 x)) samples)"

text \<open>\<open>wireToSamples\<close> in the specification's words: two bytes, low byte first, read as
  a 16-bit two's complement integer.\<close>

definition spec_le_int16 :: "byte \<Rightarrow> byte \<Rightarrow> int" where
  "spec_le_int16 lo hi =
     (let v = uint lo + 256 * uint hi in if v < 32768 then v else v - 65536)"

section \<open>The transport round-trips\<close>

lemma regroup24:
  fixes n :: nat
  shows "((n div 262144 * 64 + n div 4096 mod 64) * 64 + n div 64 mod 64) * 64 + n mod 64 = n"
proof -
  have a: "n div 4096 = n div 64 div 64" and b: "n div 262144 = n div 64 div 64 div 64"
    by (simp_all add: div_mult2_eq[symmetric])
  show ?thesis unfolding a b by simp
qed

lemma bytes24:
  fixes a b c :: nat
  assumes "b < 256" "c < 256"
  shows "(a * 65536 + b * 256 + c) div 65536 = a"
    and "(a * 65536 + b * 256 + c) div 256 mod 256 = b"
    and "(a * 65536 + b * 256 + c) mod 256 = c"
proof -
  have r: "b * 256 + c < 65536" using assms by linarith
  show "(a * 65536 + b * 256 + c) div 65536 = a" using r by (simp add: add.assoc)
  have "(a * 65536 + b * 256 + c) div 256 = a * 256 + b" using assms by simp
  then show "(a * 65536 + b * 256 + c) div 256 mod 256 = b" using assms by simp
  have "a * 65536 + b * 256 + c = (a * 256 + b) * 256 + c" by simp
  then show "(a * 65536 + b * 256 + c) mod 256 = c" using assms by (metis mod_less mod_mult_self3)
qed

lemma regroup16:
  fixes n :: nat
  assumes "n mod 256 = 0"
  shows "((n div 262144 * 64 + n div 4096 mod 64) * 64 + n div 64 mod 64) div 4 = n div 256"
proof -
  have a: "n div 4096 = n div 64 div 64" and b: "n div 262144 = n div 64 div 64 div 64"
    and c: "n div 256 = n div 64 div 4"
    by (simp_all add: div_mult2_eq[symmetric])
  show ?thesis unfolding a b c by simp
qed

lemma regroup8:
  fixes n :: nat
  shows "(n div 262144 * 64 + n div 4096 mod 64) div 16 = n div 65536"
proof -
  have a: "n div 262144 = n div 4096 div 64" and b: "n div 65536 = n div 4096 div 16"
    by (simp_all add: div_mult2_eq[symmetric])
  show ?thesis unfolding a b by simp
qed


lemma b64_table: "list_all (\<lambda>n. b64_index (b64_char n) = Some n \<and> b64_char n \<noteq> CHR ''='' \<and> \<not> ascii_whitespace (b64_char n)) [0..<64]"
  by code_simp

lemma b64_char_props:
  assumes "n < 64"
  shows "b64_index (b64_char n) = Some n" "b64_char n \<noteq> CHR ''=''" "\<not> ascii_whitespace (b64_char n)"
  using b64_table assms by (auto simp: list_all_iff)

lemma to_sextets_bound: "x \<in> set (to_sextets s) \<Longrightarrow> x < 64"
proof (induction s arbitrary: x rule: to_sextets.induct)
  case (1 a b c rest)
  have "(of_char a * 65536 + of_char b * 256 + of_char c :: nat) < 64 * 262144"
    using nat_of_char_less_256[of a] nat_of_char_less_256[of b] nat_of_char_less_256[of c] by linarith
  then have "(of_char a * 65536 + of_char b * 256 + of_char c :: nat) div 262144 < 64"
    by (simp add: less_mult_imp_div_less)
  with 1 show ?case by (auto simp: Let_def)
next
  case (2 a b)
  have "(of_char a * 65536 + of_char b * 256 :: nat) < 64 * 262144"
    using nat_of_char_less_256[of a] nat_of_char_less_256[of b] by linarith
  then have "(of_char a * 65536 + of_char b * 256 :: nat) div 262144 < 64"
    by (simp add: less_mult_imp_div_less)
  with 2 show ?case by (auto simp: Let_def)
next 
  case (3 a)
  have "(of_char a * 65536 :: nat) < 64 * 262144"
    using nat_of_char_less_256[of a] by linarith
  then have "(of_char a * 65536 :: nat) div 262144 < 64"
    by (simp add: less_mult_imp_div_less)
  with 3 show ?case by (auto simp: Let_def)
qed simp

lemma from_to_sextets: "from_sextets (to_sextets s) = s"
proof (induction s rule: to_sextets.induct)
  case (1 a b c rest)
  define n :: nat where "n = of_char a * 65536 + of_char b * 256 + of_char c"
  have ts: "to_sextets (a # b # c # rest) =
      n div 262144 # n div 4096 mod 64 # n div 64 mod 64 # n mod 64 # to_sextets rest"
    by (simp add: Let_def n_def)
  have "from_sextets (to_sextets (a # b # c # rest)) =
      char_of (n div 65536) # char_of (n div 256 mod 256) # char_of (n mod 256) # rest"
    unfolding ts by (simp only: from_sextets.simps Let_def regroup24 append.simps 1)
  then show ?case
    by (simp add: n_def bytes24)
next
  case (2 a b)
  define n :: nat where "n = of_char a * 65536 + of_char b * 256"
  have m: "n mod 256 = 0" by (simp add: n_def)
  have d: "n div 256 = of_char a * 256 + of_char b" by (simp add: n_def)
  have ts: "to_sextets [a, b] = [n div 262144, n div 4096 mod 64, n div 64 mod 64]"
    by (simp add: Let_def n_def)
  have "from_sextets (to_sextets [a, b]) = [char_of (n div 256 div 256), char_of (n div 256 mod 256)]"
    unfolding ts by (simp only: from_sextets.simps Let_def regroup16[OF m])
  then show ?case
    by (simp add: d)
next
  case (3 a)
  define n :: nat where "n = of_char a * 65536"
  have ts: "to_sextets [a] = [n div 262144, n div 4096 mod 64]"
    by (simp add: Let_def n_def)
  have "from_sextets (to_sextets [a]) = [char_of (n div 65536)]"
    unfolding ts by (simp only: from_sextets.simps regroup8)
  then show ?case
    by (simp add: n_def)
qed simp

lemma length_to_sextets: "length (to_sextets s) = (4 * length s + 2) div 3"
  by (induction s rule: to_sextets.induct) (simp_all add: Let_def)


lemma strip_padding_append:
  assumes "k \<le> 2" "ys = [] \<or> last ys \<noteq> CHR ''=''"
  shows "strip_padding (ys @ replicate k CHR ''='') = ys"
proof -
  consider "k = 0" | "k = 1" | "k = 2" using assms(1) by linarith
  then show ?thesis
  proof cases
    case 1
    show ?thesis
    proof (cases ys rule: rev_cases)
      case Nil then show ?thesis using 1 by (simp add: strip_padding_def)
    next
      case (snoc zs z)
      then have "z \<noteq> CHR ''=''" using assms(2) by simp
      then show ?thesis using 1 snoc by (cases "rev zs") (simp_all add: strip_padding_def)
    qed
  next
    case 2
    show ?thesis
    proof (cases ys rule: rev_cases)
      case Nil then show ?thesis using 2 by (simp add: strip_padding_def)
    next
      case (snoc zs z)
      then have "z \<noteq> CHR ''=''" using assms(2) by simp
      then show ?thesis using 2 snoc by (simp add: strip_padding_def)
    qed
  next
    case 3
    have "replicate k CHR ''='' = [CHR ''='', CHR ''='']" using 3 by (simp add: numeral_2_eq_2)
    then show ?thesis by (simp add: strip_padding_def)
  qed
qed

lemma those_b64_index: "\<forall>x\<in>set xs. x < 64 \<Longrightarrow> those (map (b64_index \<circ> b64_char) xs) = Some xs"
  by (induction xs) (simp_all add: b64_char_props)


lemma length_btoa: "length (btoa s) mod 4 = 0"
proof -
  let ?n = "length s"
  have "?n mod 3 = 0 \<or> ?n mod 3 = 1 \<or> ?n mod 3 = 2" by presburger
  then have "((4 * ?n + 2) div 3 + (3 - ?n mod 3) mod 3) mod 4 = 0"
  proof (elim disjE)
    assume h: "?n mod 3 = 0"
    then have "(4 * ?n + 2) div 3 mod 4 = 0" by presburger
    then show ?thesis using h by simp
  next
    assume h: "?n mod 3 = 1"
    then have "((4 * ?n + 2) div 3 + 2) mod 4 = 0" by presburger
    then show ?thesis using h by simp
  next
    assume h: "?n mod 3 = 2"
    then have "((4 * ?n + 2) div 3 + 1) mod 4 = 0" by presburger
    then show ?thesis using h by simp
  qed
  then show ?thesis
    by (simp only: btoa_def length_append length_map length_replicate length_to_sextets)
qed

lemma length_to_sextets_mod: "length (to_sextets s) mod 4 \<noteq> Suc 0"
proof -
  have "((4 * length s + 2) div 3) mod 4 \<noteq> 1" by presburger
  then show ?thesis by (simp add: length_to_sextets)
qed

lemma atob_btoa: "atob (btoa s) = Some s"
proof -
  let ?k = "(3 - length s mod 3) mod 3"
  let ?body = "map b64_char (to_sextets s)"
  have ws: "filter (\<lambda>c. \<not> ascii_whitespace c) (btoa s) = btoa s"
  proof (rule filter_True, rule ballI)
    fix c assume "c \<in> set (btoa s)"
    then consider x where "x \<in> set (to_sextets s)" "c = b64_char x" | "c = CHR ''=''"
      by (auto simp: btoa_def)
    then show "\<not> ascii_whitespace c"
    proof cases
      case 1 then show ?thesis using to_sextets_bound b64_char_props(3) by blast
    next
      case 2 then show ?thesis by (simp add: ascii_whitespace_def)
    qed
  qed
  have last: "?body = [] \<or> last ?body \<noteq> CHR ''=''"
  proof (cases "to_sextets s" rule: rev_cases)
    case Nil then show ?thesis by simp
  next
    case (snoc zs z)
    then have "z < 64" using to_sextets_bound[of z s] by simp
    then show ?thesis using snoc by (simp add: b64_char_props)
  qed
  have sp: "strip_padding (btoa s) = ?body"
    unfolding btoa_def by (rule strip_padding_append) (use last in simp_all)
  have "\<forall>x\<in>set (to_sextets s). x < 64" using to_sextets_bound by blast
  then have th: "those (map (b64_index \<circ> b64_char) (to_sextets s)) = Some (to_sextets s)"
    by (rule those_b64_index)
  show ?thesis
    unfolding atob_def ws
    by (simp add: Let_def length_btoa sp length_to_sextets_mod th from_to_sextets)
qed

lemma byte_char: "word_of_nat (unat (b::byte) mod 256) = b"
proof -
  have "unat b < 256" using unsigned_less[of b, where 'a=nat] by simp
  then show ?thesis by simp
qed
lemma decode_encode_bytes: "decode (encode bytes) = Some bytes"
  by (simp add: decode_def encode_def atob_btoa o_def byte_char)


text \<open>
  C10. The transport codec round-trips: decoding the encoding of any byte array gives the
  array back, so the byte length of a chunk, and with it the number of 16-bit samples,
  survives the binary-to-text encoding.
\<close>

theorem transport_roundtrip:
  "decode (encode b) = Some b
   \<and> map_option length (decode (encode b)) = Some (length b)
   \<and> map_option (\<lambda>b'. length b' div 2) (decode (encode b)) = Some (length b div 2)"
  by (simp add: decode_encode_bytes)


section \<open>The codec\<close>

subsection \<open>Sixteen-bit values and their bytes\<close>

lemma le_pair_add: "(ucast (lo::byte) OR push_bit 8 (ucast (hi::byte)) :: 16 word) = ucast lo + push_bit 8 (ucast hi)"
  by (rule disjunctive_add_eq_or[symmetric], rule bit_word_eqI) (auto simp: bit_simps dest: bit_imp_le_length)

lemma le_pair_int: "(ucast (lo::byte) OR push_bit 8 (ucast (hi::byte)) :: 16 word) = word_of_int (uint lo + 256 * uint hi)"
  unfolding le_pair_add by (simp add: push_bit_eq_mult)

lemma sint16_of_int: "- 32768 \<le> k \<Longrightarrow> k \<le> 32767 \<Longrightarrow> sint (word_of_int k :: 16 word) = k"
  by (simp add: int_word_sint)

lemma sint16_of_nonneg:
  assumes "0 \<le> v" "v < 65536"
  shows "sint (word_of_int v :: 16 word) = (if v < 32768 then v else v - 65536)"
proof (cases "v < 32768")
  case True
  then show ?thesis using assms by (simp add: sint16_of_int)
next
  case False
  have "(word_of_int v :: 16 word) = word_of_int (v - 65536)"
    by (simp add: word_of_int_eq_iff take_bit_eq_mod)
  then have "sint (word_of_int v :: 16 word) = sint (word_of_int (v - 65536) :: 16 word)"
    by (rule arg_cong)
  also have "\<dots> = v - 65536"
    using False assms by (intro sint16_of_int) simp_all
  finally show ?thesis using False by (simp only: if_False)
qed

lemma sint_le_pair: 
  "sint (ucast (lo::byte) OR push_bit 8 (ucast (hi::byte)) :: 16 word) =
     (let v = uint lo + 256 * uint hi in if v < 32768 then v else v - 65536)"
proof -
  have "uint lo < 256" "uint hi < 256" "0 \<le> uint lo" "0 \<le> uint hi"
    using uint_lt2p[of lo] uint_lt2p[of hi] by simp_all
  then have b: "0 \<le> uint lo + 256 * uint hi" "uint lo + 256 * uint hi < 65536" by linarith+
  show ?thesis unfolding le_pair_int Let_def by (rule sint16_of_nonneg[OF b])
qed
lemma word_bytes: "(ucast (ucast w :: byte) OR push_bit 8 (ucast (ucast (drop_bit 8 w) :: byte))) = (w :: 16 word)"
  by (rule bit_word_eqI) (auto simp: bit_simps)

lemma int16_view_Uint8Array: "int16_view (Uint8Array_of ws) = ws"
  by (induction ws) (simp_all add: Uint8Array_of_def word_bytes)

lemma length_Uint8Array: "length (Uint8Array_of ws) = 2 * length ws"
  by (induction ws) (simp_all add: Uint8Array_of_def)

lemma length_int16_view: "length (int16_view bytes) = length bytes div 2"
  by (induction bytes rule: int16_view.induct) simp_all

lemma nth_int16_view:
  "i < length bytes div 2 \<Longrightarrow>
   int16_view bytes ! i = ucast (bytes ! (2 * i)) OR push_bit 8 (ucast (bytes ! (2 * i + 1)))"
proof (induction bytes arbitrary: i rule: int16_view.induct)
  case (1 lo hi rest)
  then show ?case by (cases i) simp_all
qed simp_all

lemma pcm_roundtrip:
  "pcmToAudioBuffer (data (createPcmBlob d)) r =
     (if d = [] \<or> r = 0 then Inl NotSupportedError
      else Inr \<lparr>channelData = map (\<lambda>x. real_of_int (sint (int16_of_sample x)) / 32768) d,
                sampleRate = r\<rparr>)"
  by (simp add: pcmToAudioBuffer_def createPcmBlob_def decode_encode_bytes Int16Array_of_def
      length_Uint8Array int16_view_Uint8Array createBuffer_def o_def)


subsection \<open>Quantisation\<close>

lemma spec_int16_range: "- 32768 \<le> spec_int16 x \<and> spec_int16 x \<le> 32767"
proof (cases x)
  case (Finite r)
  let ?c = "spec_clamp r"
  have c: "- 1 \<le> ?c" "?c \<le> 1" by (simp_all add: spec_clamp_def)
  show ?thesis
  proof (cases "?c < 0")
    case True
    then have y: "?c * 32768 < 0" "- (?c * 32768) \<le> 32768" using c by simp_all
    then have "\<lfloor>- (?c * 32768)\<rfloor> \<le> 32768" "0 \<le> \<lfloor>- (?c * 32768)\<rfloor>" 
      by (simp_all add: floor_le_iff le_floor_iff)
    then have "- 32768 \<le> - \<lfloor>- (?c * 32768)\<rfloor>" "- \<lfloor>- (?c * 32768)\<rfloor> \<le> 32767" by linarith+
    then show ?thesis using True y Finite by (simp add: Let_def)
  next
    case False
    then have y: "0 \<le> ?c * 32767" "?c * 32767 \<le> 32767" using c by simp_all
    then have "\<lfloor>?c * 32767\<rfloor> \<le> 32767" "0 \<le> \<lfloor>?c * 32767\<rfloor>"
      by (simp_all add: floor_le_iff le_floor_iff)
    then show ?thesis using False y Finite by (simp add: Let_def)
  qed
qed simp_all

lemma int16_of_sample_spec: "int16_of_sample x = word_of_int (spec_int16 x)"
proof (cases x)
  case (Finite r)
  have m: "max (- 1) (min 1 r) = spec_clamp r" by (simp add: spec_clamp_def max_def min_def)
  show ?thesis
    unfolding Finite int16_of_sample_def
    by (simp add: m Let_def trunc_def ceiling_def mult_less_0_iff not_less zero_le_mult_iff)
qed (simp_all add: int16_of_sample_def trunc_def)

lemma sint_int16_of_sample: "sint (int16_of_sample x) = spec_int16 x"
  unfolding int16_of_sample_spec using spec_int16_range[of x] by (simp add: int_word_sint)

lemma le_bytes_word:
  "[ucast (word_of_int k :: 16 word), ucast (drop_bit 8 (word_of_int k :: 16 word))] = spec_le_bytes k"
proof -
  have "(ucast (word_of_int k :: 16 word) :: byte) = word_of_int (take_bit 8 k)"
    by (rule bit_word_eqI) (auto simp: bit_simps)
  moreover have "(ucast (drop_bit 8 (word_of_int k :: 16 word)) :: byte) = word_of_int (take_bit 8 (drop_bit 8 k))"
    by (rule bit_word_eqI) (auto simp: bit_simps)
  ultimately show ?thesis
    by (simp add: spec_le_bytes_def take_bit_eq_mod drop_bit_eq_div)
qed

lemma Uint8Array_spec: "Uint8Array_of (map int16_of_sample d) = spec_samplesToWire d"
  by (induction d) (simp_all add: Uint8Array_of_def spec_samplesToWire_def int16_of_sample_spec le_bytes_word)

lemma quantization_error:
  assumes "- 1 \<le> x" "x \<le> 1"
  shows "\<bar>real_of_int (spec_int16 (Finite x)) / 32768 - x\<bar> < 2 / 32768"
    and "x < 0 \<Longrightarrow> \<bar>real_of_int (spec_int16 (Finite x)) / 32768 - x\<bar> < 1 / 32768"
proof -
  have c: "spec_clamp x = x" using assms by (simp add: spec_clamp_def)
  have neg: "\<bar>real_of_int (spec_int16 (Finite x)) / 32768 - x\<bar> < 1 / 32768" if "x < 0"
  proof -
    define f where "f = \<lfloor>- (x * 32768)\<rfloor>"
    have v: "spec_int16 (Finite x) = - f" using that by (simp add: c Let_def f_def)
    have "real_of_int f \<le> - (x * 32768)" "- (x * 32768) < real_of_int f + 1"
      unfolding f_def by linarith+
    then show ?thesis unfolding v by (simp add: abs_less_iff field_simps)
  qed
  show "x < 0 \<Longrightarrow> \<bar>real_of_int (spec_int16 (Finite x)) / 32768 - x\<bar> < 1 / 32768" by (rule neg)
  show "\<bar>real_of_int (spec_int16 (Finite x)) / 32768 - x\<bar> < 2 / 32768"
  proof (cases "x < 0")
    case True then show ?thesis using neg by force
  next
    case False
    define f where "f = \<lfloor>x * 32767\<rfloor>"
    have v: "spec_int16 (Finite x) = f" using False by (simp add: c Let_def f_def)
    have "real_of_int f \<le> x * 32767" "x * 32767 < real_of_int f + 1"
      unfolding f_def by linarith+
    then show ?thesis unfolding v using False assms by (simp add: abs_less_iff field_simps)
  qed
qed


text \<open>
  C4. \<open>createPcmBlob\<close> has no failing step and computes what the specification words:
  its payload is the transport encoding of the bytes obtained by clamping each sample to
  \<open>[-1, 1]\<close>, scaling by 32768 below zero and by 32767 from zero on, truncating towards
  zero to a value in the signed 16-bit range and writing the low byte first; the empty
  input gives the empty payload.
\<close>

theorem createPcmBlob_refines_spec:
  "data (createPcmBlob d) = encode (spec_samplesToWire d)
   \<and> decode (data (createPcmBlob d)) = Some (spec_samplesToWire d)
   \<and> length (spec_samplesToWire d) = 2 * length d
   \<and> - 32768 \<le> spec_int16 x \<and> spec_int16 x \<le> 32767
   \<and> mimeType (createPcmBlob d) = ''audio/pcm;rate=16000''
   \<and> createPcmBlob [] = \<lparr>data = [], mimeType = ''audio/pcm;rate=16000''\<rparr>"
proof -
  have "length (spec_samplesToWire d) = 2 * length d"
    using length_Uint8Array[of "map int16_of_sample d"] by (simp add: Uint8Array_spec)
  moreover have "createPcmBlob [] = \<lparr>data = [], mimeType = ''audio/pcm;rate=16000''\<rparr>"
    by (simp add: createPcmBlob_def Uint8Array_of_def encode_def btoa_def)
  ultimately show ?thesis
    using spec_int16_range[of x]
    by (simp add: createPcmBlob_def Uint8Array_spec decode_encode_bytes)
qed


text \<open>
  C3 as stated fails. The sample \<open>32769/65536\<close>, a single-precision value, is encoded as
  16383 and decoded as \<open>16383/32768\<close>, which is \<open>3/65536\<close> away from it: more than
  \<open>1/32768\<close>.
\<close>

theorem roundtrip_bound_counterexample:
  "pcmToAudioBuffer (data (createPcmBlob [Finite (32769 / 65536)])) 24000
     = Inr \<lparr>channelData = [16383 / 32768], sampleRate = 24000\<rparr>
   \<and> (1 / 32768 :: real) < \<bar>16383 / 32768 - 32769 / 65536\<bar>"
  by (simp add: pcm_roundtrip sint_int16_of_sample spec_clamp_def)


text \<open>
  C3, amended. For samples in \<open>[-1, 1]\<close> the decoded value of the encoded sequence is
  less than \<open>2/32768\<close> away from the sample at every index, and less than \<open>1/32768\<close>
  away where the sample is negative. The scale 32767 on the encoding side against the
  divisor 32768 on the decoding side is what costs the second step.
\<close>

theorem roundtrip_quantization_bound:
  assumes "\<forall>x\<in>set xs. - 1 \<le> x \<and> x \<le> 1" and "i < length xs"
  shows "\<exists>buf. pcmToAudioBuffer (data (createPcmBlob (map Finite xs))) 24000 = Inr buf
           \<and> length (channelData buf) = length xs
           \<and> \<bar>channelData buf ! i - xs ! i\<bar> < 2 / 32768
           \<and> (xs ! i < 0 \<longrightarrow> \<bar>channelData buf ! i - xs ! i\<bar> < 1 / 32768)"
proof -
  have ne: "xs \<noteq> []" using assms(2) by auto
  have r: "- 1 \<le> xs ! i" "xs ! i \<le> 1" using assms by simp_all
  show ?thesis
    using assms(2) quantization_error[OF r]
    by (simp add: pcm_roundtrip ne sint_int16_of_sample del: spec_int16.simps)
qed


theorem roundtrip_quantization_bound_witness:
  "\<exists>buf. pcmToAudioBuffer (data (createPcmBlob (map Finite [32769 / 65536, - 1]))) 24000 = Inr buf
           \<and> length (channelData buf) = 2
           \<and> \<bar>channelData buf ! 1 - (- 1)\<bar> < 2 / 32768
           \<and> \<bar>channelData buf ! 1 - (- 1)\<bar> < 1 / 32768"
proof -
  have h1: "\<forall>x\<in>set [32769 / 65536, - 1 :: real]. - 1 \<le> x \<and> x \<le> 1" by simp
  have h2: "1 < length [32769 / 65536, - 1 :: real]" by simp
  from roundtrip_quantization_bound[OF h1 h2] show ?thesis by (simp add: numeral_2_eq_2)
qed

lemma signed_le_pair:
  "(signed (ucast (lo::byte) OR push_bit 8 (ucast (hi::byte)) :: 16 word) :: real)
     = real_of_int (spec_le_int16 lo hi)"
proof -
  let ?w = "ucast lo OR push_bit 8 (ucast hi) :: 16 word"
  have "(signed ?w :: real) = real_of_int (sint ?w)" by simp
  also have "sint ?w = spec_le_int16 lo hi" by (simp only: sint_le_pair spec_le_int16_def)
  finally show ?thesis .
qed

text \<open>
  C5 as stated fails. The empty chunk has an even byte length, and \<open>pcmToAudioBuffer\<close>
  fails on it: \<open>createBuffer\<close> rejects a buffer of zero frames. (The callers never
  pass it: \<open>onmessage\<close> and \<open>generateSpeech\<close> skip an empty payload.)
\<close>

theorem empty_chunk_counterexample:
  "decode [] = Some []
   \<and> even (length ([] :: byte list))
   \<and> pcmToAudioBuffer [] 24000 = Inl NotSupportedError"
  by (simp add: pcmToAudioBuffer_def decode_def atob_def strip_padding_def Int16Array_of_def createBuffer_def)

text \<open>
  C5, amended. \<open>pcmToAudioBuffer\<close> fails on text that is not base64; on the text of a
  byte sequence it fails exactly when the byte length is odd or zero; on every non-empty
  chunk of even length it succeeds and returns one sample per pair of bytes, the pair
  read low byte first as a signed 16-bit integer and divided by 32768.
\<close>

theorem pcmToAudioBuffer_outcome:
  "(decode txt = None \<longrightarrow> pcmToAudioBuffer txt 24000 = Inl InvalidCharacterError)
   \<and> (\<forall>bytes. decode txt = Some bytes \<longrightarrow>
        (if odd (length bytes) then pcmToAudioBuffer txt 24000 = Inl RangeError
         else if bytes = [] then pcmToAudioBuffer txt 24000 = Inl NotSupportedError
         else \<exists>buf. pcmToAudioBuffer txt 24000 = Inr buf
                \<and> sampleRate buf = 24000
                \<and> length (channelData buf) = length bytes div 2
                \<and> (\<forall>i<length bytes div 2.
                     channelData buf ! i =
                       real_of_int (spec_le_int16 (bytes ! (2 * i)) (bytes ! (2 * i + 1))) / 32768)))"
proof (intro conjI impI allI)
  assume "decode txt = None"
  then show "pcmToAudioBuffer txt 24000 = Inl InvalidCharacterError"
    by (simp add: pcmToAudioBuffer_def)
next
  fix bytes assume d: "decode txt = Some bytes"
  show "if odd (length bytes) then pcmToAudioBuffer txt 24000 = Inl RangeError
         else if bytes = [] then pcmToAudioBuffer txt 24000 = Inl NotSupportedError
         else \<exists>buf. pcmToAudioBuffer txt 24000 = Inr buf
                \<and> sampleRate buf = 24000
                \<and> length (channelData buf) = length bytes div 2
                \<and> (\<forall>i<length bytes div 2.
                     channelData buf ! i =
                       real_of_int (spec_le_int16 (bytes ! (2 * i)) (bytes ! (2 * i + 1))) / 32768)"
  proof (cases "odd (length bytes)")
    case True
    then show ?thesis by (simp add: pcmToAudioBuffer_def d Int16Array_of_def)
  next
    case False
    show ?thesis
    proof (cases "bytes = []")
      case True
      then show ?thesis by (simp add: pcmToAudioBuffer_def d Int16Array_of_def createBuffer_def)
    next
      case ne: False
      then have "length bytes \<noteq> 0" by simp
      with False have pos: "length bytes div 2 \<noteq> 0" by presburger
      show ?thesis
        using False ne pos
        by (simp add: pcmToAudioBuffer_def d Int16Array_of_def createBuffer_def
            length_int16_view nth_int16_view signed_le_pair)
    qed
  qed
qed

theorem pcmToAudioBuffer_outcome_witness:
  "\<exists>buf. pcmToAudioBuffer (encode [0, 128]) 24000 = Inr buf
      \<and> sampleRate buf = 24000 \<and> length (channelData buf) = 1 \<and> channelData buf ! 0 = - 1"
proof -
  have d: "decode (encode [0, 128]) = Some [0, 128]" by (rule decode_encode_bytes)
  have "\<exists>buf. pcmToAudioBuffer (encode [0, 128]) 24000 = Inr buf
                \<and> sampleRate buf = 24000
                \<and> length (channelData buf) = length [0, 128 :: byte] div 2
                \<and> (\<forall>i<length [0, 128 :: byte] div 2.
                     channelData buf ! i =
                       real_of_int (spec_le_int16 ([0, 128] ! (2 * i)) ([0, 128] ! (2 * i + 1))) / 32768)"
    using pcmToAudioBuffer_outcome[of "encode [0, 128]"] d by simp
  then show ?thesis by (auto simp: spec_le_int16_def)
qed



section \<open>The playback scheduler\<close>

lemma pcm_encode:
  "pcmToAudioBuffer (encode bytes) r =
     (if odd (length bytes) then Inl RangeError
      else if bytes = [] \<or> r = 0 then Inl NotSupportedError
      else Inr \<lparr>channelData = map (\<lambda>w. real_of_int (sint w) / 32768) (int16_view bytes),
                sampleRate = r\<rparr>)"
proof -
  have "even (length bytes) \<Longrightarrow> bytes \<noteq> [] \<Longrightarrow> length bytes div 2 \<noteq> 0"
    by (cases bytes rule: int16_view.cases) simp_all
  then show ?thesis
    by (auto simp: pcmToAudioBuffer_def decode_encode_bytes Int16Array_of_def createBuffer_def
        length_int16_view)
qed

lemma onAudio_dropped:
  assumes "\<not> outputContext s \<or> isl (pcmToAudioBuffer c 24000)"
  shows "nodes (onAudio c t s) = nodes s" "nextStartTime (onAudio c t s) = nextStartTime s"
    "audioQueue (onAudio c t s) = audioQueue s" "outputContext (onAudio c t s) = outputContext s"
  using assms by (auto simp: onAudio_def split: sum.splits)

lemma onAudio_scheduled:
  assumes "outputContext s" "pcmToAudioBuffer c 24000 = Inr buf"
  shows "onAudio c t s =
           s\<lparr>nextStartTime := max t (nextStartTime s) + duration buf,
             audioQueue := audioQueue s @ [length (nodes s)],
             nodes := nodes s @ [\<lparr>buffer = buf, startTime = max t (nextStartTime s), stopped = False\<rparr>]\<rparr>"
  using assms by (simp add: onAudio_def Let_def)

lemma run_Cons: "run (e # es) s = run es (step e s)"
  by (simp add: run_def)

lemma run_Nil: "run [] s = s"
  by (simp add: run_def)

lemma nodes_run:
  "\<forall>e\<in>set es. \<not> is_interrupt e \<Longrightarrow> nodes (run es s) = nodes s @ scheduled es s"
proof (induction es arbitrary: s)
  case Nil
  then show ?case by (simp add: scheduled_def run_Nil)
next
  case (Cons e es)
  obtain new where new: "nodes (step e s) = nodes s @ new"
  proof (cases e)
    case (Audio c t)
    show ?thesis
    proof (cases "outputContext s")
      case True
      show ?thesis
      proof (cases "pcmToAudioBuffer c 24000")
        case (Inl err) 
        then show ?thesis using that[of "[]"] Audio onAudio_dropped(1)[of s c t] by simp
      next
        case (Inr buf)
        then show ?thesis using that Audio onAudio_scheduled[OF True Inr, of t] by simp
      qed
    next
      case False
      then show ?thesis using that[of "[]"] Audio onAudio_dropped(1)[of s c t] by simp
    qed
  next
    case (Interrupted t) then show ?thesis using Cons.prems by simp
  next
    case (Ended n) then show ?thesis using that[of "[]"] by (simp add: onended_def)
  qed
  have "nodes (run (e # es) s) = nodes (step e s) @ scheduled es (step e s)"
    using Cons by (simp add: run_Cons)
  then show ?case by (simp add: scheduled_def new)
qed


lemma step_scheduled:
  assumes "\<not> is_interrupt e"
  shows "(scheduled [e] s = [] \<and> nextStartTime (step e s) = nextStartTime s)
       \<or> (\<exists>c t buf. e = Audio c t
             \<and> scheduled [e] s =
                 [\<lparr>buffer = buf, startTime = max t (nextStartTime s), stopped = False\<rparr>]
             \<and> nextStartTime (step e s) = max t (nextStartTime s) + duration buf)"
proof (cases e)
  case (Audio c t)
  show ?thesis
  proof (cases "outputContext s \<and> \<not> isl (pcmToAudioBuffer c 24000)")
    case True
    then obtain buf where buf: "pcmToAudioBuffer c 24000 = Inr buf"
      by (cases "pcmToAudioBuffer c 24000") auto
    from True have oc: "outputContext s" by simp
    show ?thesis
      using Audio by (simp add: scheduled_def run_def onAudio_scheduled[OF oc buf])
  next
    case False
    then have "\<not> outputContext s \<or> isl (pcmToAudioBuffer c 24000)"
      by simp
    then show ?thesis
      using Audio by (simp add: scheduled_def run_def onAudio_dropped)
  qed
next
  case (Interrupted t) then show ?thesis using assms by simp
next
  case (Ended n) then show ?thesis by (simp add: scheduled_def run_def onended_def)
qed

lemma scheduled_Cons:
  assumes "\<forall>x\<in>set (e # es). \<not> is_interrupt x"
  shows "scheduled (e # es) s = scheduled [e] s @ scheduled es (step e s)"
proof -
  have a: "nodes (step e s) = nodes s @ scheduled [e] s"
    using nodes_run[of "[e]" s] assms by (simp add: run_def)
  have b: "nodes (run es (step e s)) = nodes (step e s) @ scheduled es (step e s)"
    using nodes_run[of es "step e s"] assms by simp
  show ?thesis
    unfolding scheduled_def[of "e # es"] run_Cons b a by simp
qed

lemma chained_run:
  "\<forall>e\<in>set es. \<not> is_interrupt e \<Longrightarrow> chained (nextStartTime s) (scheduled es s)"
proof (induction es arbitrary: s)
  case Nil
  then show ?case by (simp add: scheduled_def run_Nil)
next
  case (Cons e es)
  have ih: "chained (nextStartTime (step e s)) (scheduled es (step e s))"
    using Cons by simp
  from Cons.prems have "\<not> is_interrupt e" by simp
  from step_scheduled[OF this, of s] show ?case
    using ih by (auto simp: scheduled_Cons[OF Cons.prems])
qed

lemma abutting_run:
  "\<forall>e\<in>set es. \<not> is_interrupt e \<Longrightarrow> paced es s \<Longrightarrow> abutting (nextStartTime s) (scheduled es s)"
proof (induction es arbitrary: s)
  case Nil
  then show ?case by (simp add: scheduled_def run_Nil)
next
  case (Cons e es)
  from Cons.prems have ni: "\<not> is_interrupt e" by simp
  have p: "paced es (step e s)" using Cons.prems(2) by (cases e) simp_all
  have ih: "abutting (nextStartTime (step e s)) (scheduled es (step e s))"
    using Cons p by simp
  have le: "t \<le> nextStartTime s" if "e = Audio c t" for c t
    using Cons.prems(2) that by simp
  from step_scheduled[OF ni, of s] show ?case
    using ih le by (auto simp: scheduled_Cons[OF Cons.prems(1)] max_def)
qed

lemma chained_nth:
  "chained c us \<Longrightarrow> Suc n < length us \<Longrightarrow>
   startTime (us ! n) + duration (buffer (us ! n)) \<le> startTime (us ! Suc n)"
proof (induction us arbitrary: c n)
  case (Cons u us)
  show ?case
  proof (cases n)
    case 0
    then show ?thesis using Cons.prems by (cases us) simp_all
  next
    case (Suc m)
    from Cons.prems(1) have "chained (startTime u + duration (buffer u)) us" by simp
    from Cons.IH[OF this, of m] show ?thesis using Suc Cons.prems(2) by simp
  qed
qed simp

lemma abutting_nth:
  "abutting c us \<Longrightarrow> Suc n < length us \<Longrightarrow>
   startTime (us ! Suc n) = startTime (us ! n) + duration (buffer (us ! n))"
proof (induction us arbitrary: c n)
  case (Cons u us)
  show ?case
  proof (cases n)
    case 0
    then show ?thesis using Cons.prems by (cases us) simp_all
  next
    case (Suc m)
    from Cons.prems(1) have "abutting (startTime u + duration (buffer u)) us"
      by (metis abutting.simps(2))
    from Cons.IH[OF this, of m] show ?thesis using Suc Cons.prems(2) by simp
  qed
qed simp

lemma two_samples: "pcmToAudioBuffer (encode [0, 0, 0, 0]) 24000
   = Inr \<lparr>channelData = [0, 0], sampleRate = 24000\<rparr>"
  by (simp add: pcm_encode)

lemma one_sample: "pcmToAudioBuffer (encode [0, 0]) 24000
   = Inr \<lparr>channelData = [0], sampleRate = 24000\<rparr>"
  by (simp add: pcm_encode)

lemma duration_pcm_encode:
  assumes "even (length b)" "b \<noteq> []"
  shows "\<exists>buf. pcmToAudioBuffer (encode b) 24000 = Inr buf
           \<and> duration buf = real (length b div 2) / 24000"
  using assms by (simp add: pcm_encode duration_def length_int16_view)


text \<open>
  C1. In a run of callbacks without an interruption (chunks, some of which may fail to
  decode, and completion callbacks), the units scheduled never overlap: each starts no
  earlier than the start of the one before plus its duration. A unit starts at the
  maximum of the output clock and the cursor, and the cursor moves to its end.
\<close>

theorem no_overlap:
  assumes "\<forall>e\<in>set es. \<not> is_interrupt e" and "Suc n < length (scheduled es s)"
  shows "startTime (scheduled es s ! n) + duration (buffer (scheduled es s ! n))
           \<le> startTime (scheduled es s ! Suc n)
         \<and> (\<forall>c t buf (s' :: session). outputContext s' \<and> pcmToAudioBuffer c 24000 = Inr buf \<longrightarrow>
               scheduled [Audio c t] s' =
                 [\<lparr>buffer = buf, startTime = max t (nextStartTime s'), stopped = False\<rparr>]
               \<and> nextStartTime (onAudio c t s') = max t (nextStartTime s') + duration buf)"
proof (intro conjI allI impI)
  show "startTime (scheduled es s ! n) + duration (buffer (scheduled es s ! n))
           \<le> startTime (scheduled es s ! Suc n)"
    using chained_nth[OF chained_run[OF assms(1)] assms(2)] .
next
  fix c t buf and s' :: session
  assume "outputContext s' \<and> pcmToAudioBuffer c 24000 = Inr buf"
  then have a: "outputContext s'" and b: "pcmToAudioBuffer c 24000 = Inr buf" by simp_all
  show "scheduled [Audio c t] s' =
          [\<lparr>buffer = buf, startTime = max t (nextStartTime s'), stopped = False\<rparr>]"
    by (simp add: scheduled_def run_def onAudio_scheduled[OF a b])
  show "nextStartTime (onAudio c t s') = max t (nextStartTime s') + duration buf"
    by (simp add: onAudio_scheduled[OF a b])
qed

theorem no_overlap_witness:
  "startTime (scheduled [Audio (encode [0, 0, 0, 0]) 5, Ended 0, Audio (encode [0, 0]) 5] (listening 0) ! 0)
     + duration (buffer (scheduled [Audio (encode [0, 0, 0, 0]) 5, Ended 0, Audio (encode [0, 0]) 5] (listening 0) ! 0))
   \<le> startTime (scheduled [Audio (encode [0, 0, 0, 0]) 5, Ended 0, Audio (encode [0, 0]) 5] (listening 0) ! Suc 0)"
proof -
  let ?es = "[Audio (encode [0, 0, 0, 0]) 5, Ended 0, Audio (encode [0, 0]) 5]"
  have h1: "\<forall>e\<in>set ?es. \<not> is_interrupt e" by simp
  have h2: "Suc 0 < length (scheduled ?es (listening 0))"
    by (simp add: scheduled_def run_def onAudio_def onended_def two_samples one_sample
        listening_def connecting_def Let_def)
  from no_overlap[OF h1 h2] show ?thesis by (rule conjunct1)
qed



text \<open>
  C2. When no chunk of an uninterrupted run arrives after the output clock has passed
  the cursor, consecutive units are scheduled back to back: each starts exactly at the
  start of the one before plus its duration. In particular two chunks of 1000 samples
  (2000 bytes), the second delivered before the first has played out, give a second unit
  that starts \<open>1000/24000\<close> seconds after the first.
\<close>

theorem gapless_under_pace:
  "((\<forall>e\<in>set es. \<not> is_interrupt e) \<and> paced es s \<and> Suc n < length (scheduled es s) \<longrightarrow>
      startTime (scheduled es s ! Suc n)
        = startTime (scheduled es s ! n) + duration (buffer (scheduled es s ! n)))
   \<and> (outputContext s \<and> length b1 = 2000 \<and> length b2 = 2000
        \<and> t2 \<le> max t1 (nextStartTime s) + 1000 / 24000 \<longrightarrow>
      (\<exists>u1 u2. scheduled [Audio (encode b1) t1, Audio (encode b2) t2] s = [u1, u2]
          \<and> startTime u1 = max t1 (nextStartTime s)
          \<and> startTime u2 = startTime u1 + 1000 / 24000))"
proof (intro conjI impI)
  assume "(\<forall>e\<in>set es. \<not> is_interrupt e) \<and> paced es s \<and> Suc n < length (scheduled es s)"
  then show "startTime (scheduled es s ! Suc n)
        = startTime (scheduled es s ! n) + duration (buffer (scheduled es s ! n))"
    using abutting_nth[OF abutting_run] by blast
next
  assume h: "outputContext s \<and> length b1 = 2000 \<and> length b2 = 2000
        \<and> t2 \<le> max t1 (nextStartTime s) + 1000 / 24000"
  then have e1: "even (length b1)" "b1 \<noteq> []" and e2: "even (length b2)" "b2 \<noteq> []" by auto
  obtain buf1 where buf1: "pcmToAudioBuffer (encode b1) 24000 = Inr buf1"
    "duration buf1 = 1000 / 24000"
    using duration_pcm_encode[OF e1] h by auto
  obtain buf2 where buf2: "pcmToAudioBuffer (encode b2) 24000 = Inr buf2"
    using duration_pcm_encode[OF e2] by auto
  from h have oc: "outputContext s" by simp
  let ?s1 = "onAudio (encode b1) t1 s"
  have s1: "?s1 = s\<lparr>nextStartTime := max t1 (nextStartTime s) + duration buf1,
             audioQueue := audioQueue s @ [length (nodes s)],
             nodes := nodes s @ [\<lparr>buffer = buf1, startTime = max t1 (nextStartTime s), stopped = False\<rparr>]\<rparr>"
    by (rule onAudio_scheduled[OF oc buf1(1)])
  have oc1: "outputContext ?s1" using oc by (simp add: s1)
  have m: "max t2 (nextStartTime ?s1) = max t1 (nextStartTime s) + 1000 / 24000"
    using h by (simp add: s1 buf1(2) max_def)
  have "scheduled [Audio (encode b1) t1, Audio (encode b2) t2] s =
      [\<lparr>buffer = buf1, startTime = max t1 (nextStartTime s), stopped = False\<rparr>,
       \<lparr>buffer = buf2, startTime = max t1 (nextStartTime s) + 1000 / 24000, stopped = False\<rparr>]"
    unfolding scheduled_def run_def
    by (simp add: onAudio_scheduled[OF oc1 buf2] m) (simp add: s1)
  then show "\<exists>u1 u2. scheduled [Audio (encode b1) t1, Audio (encode b2) t2] s = [u1, u2]
          \<and> startTime u1 = max t1 (nextStartTime s)
          \<and> startTime u2 = startTime u1 + 1000 / 24000"
    by simp
qed

theorem gapless_under_pace_witness:
  "startTime (scheduled [Audio (encode [0, 0, 0, 0]) 0, Audio (encode [0, 0]) 0] (listening 0) ! Suc 0)
     = startTime (scheduled [Audio (encode [0, 0, 0, 0]) 0, Audio (encode [0, 0]) 0] (listening 0) ! 0)
       + duration (buffer (scheduled [Audio (encode [0, 0, 0, 0]) 0, Audio (encode [0, 0]) 0] (listening 0) ! 0))
   \<and> (\<exists>u1 u2. scheduled [Audio (encode (replicate 2000 0)) 3, Audio (encode (replicate 2000 0)) 3] (listening 0) = [u1, u2]
          \<and> startTime u1 = max 3 (nextStartTime (listening 0))
          \<and> startTime u2 = startTime u1 + 1000 / 24000)"
proof -
  let ?es = "[Audio (encode [0, 0, 0, 0]) 0, Audio (encode [0, 0]) 0]"
  have h1: "(\<forall>e\<in>set ?es. \<not> is_interrupt e) \<and> paced ?es (listening 0)
      \<and> Suc 0 < length (scheduled ?es (listening 0))"
    by (simp add: scheduled_def run_def onAudio_def two_samples one_sample
        listening_def connecting_def Let_def duration_def)
  have h2: "outputContext (listening 0) \<and> length (replicate 2000 (0::byte)) = 2000
      \<and> length (replicate 2000 (0::byte)) = 2000
      \<and> (3::real) \<le> max 3 (nextStartTime (listening 0)) + 1000 / 24000"
    by (simp add: listening_def connecting_def)
  from gapless_under_pace[of ?es "listening 0" 0 "replicate 2000 0" "replicate 2000 0" 3 3] h1 h2
  show ?thesis by blast
qed



subsection \<open>Interruption\<close>

lemma length_stop_node: "length (stop_node i ns) = length ns"
  by (simp add: stop_node_def)

lemma length_fold_stop_node: "length (fold stop_node q ns) = length ns"
  by (induction q arbitrary: ns) (simp_all add: length_stop_node)

lemma stopped_stop_node:
  "j < length ns \<Longrightarrow> stopped (stop_node i ns ! j) = (j = i \<or> stopped (ns ! j))"
  by (simp add: stop_node_def nth_list_update)

lemma stopped_fold_stop_node:
  "j < length ns \<Longrightarrow> stopped (fold stop_node q ns ! j) = (j \<in> set q \<or> stopped (ns ! j))"
proof (induction q arbitrary: ns)
  case (Cons i q)
  then show ?case
    using Cons.IH[of "stop_node i ns"] by (auto simp: length_stop_node stopped_stop_node)
qed simp

lemma stop_node_keeps:
  "map buffer (stop_node i ns) = map buffer ns" "map startTime (stop_node i ns) = map startTime ns"
  by (simp_all add: stop_node_def map_update list_update_same_conv)

lemma fold_stop_node_keeps:
  "map buffer (fold stop_node q ns) = map buffer ns"
  "map startTime (fold stop_node q ns) = map startTime ns"
  by (induction q arbitrary: ns) (simp_all add: stop_node_keeps)

text \<open>
  C6. With the output context open, \<open>onInterrupted\<close> leaves the queue of active units
  empty, every unit that was in it stopped, and the cursor at the output clock read by
  the flush; the next chunk that decodes, arriving when the clock shows \<open>t'\<close> (not
  before the flush), starts at \<open>t'\<close>, whatever the cursor was before the flush.
\<close>

theorem flush_on_interrupt:
  assumes "outputContext s"
  shows "audioQueue (onInterrupted t s) = []
       \<and> nextStartTime (onInterrupted t s) = t
       \<and> (\<forall>i\<in>set (audioQueue s). i < length (nodes s) \<longrightarrow> stopped (nodes (onInterrupted t s) ! i))
       \<and> (\<forall>c buf t'. pcmToAudioBuffer c 24000 = Inr buf \<and> t \<le> t' \<longrightarrow>
            scheduled [Audio c t'] (onInterrupted t s) =
              [\<lparr>buffer = buf, startTime = t', stopped = False\<rparr>])"
proof -
  let ?s1 = "onInterrupted t s"
  have s1: "?s1 = s\<lparr>nodes := fold stop_node (audioQueue s) (nodes s), audioQueue := [],
                     nextStartTime := t\<rparr>"
    using assms by (simp add: onInterrupted_def stopAllPlayback_def Let_def)
  have oc: "outputContext ?s1" using assms by (simp add: s1)
  have "scheduled [Audio c t'] ?s1 = [\<lparr>buffer = buf, startTime = t', stopped = False\<rparr>]"
    if "pcmToAudioBuffer c 24000 = Inr buf" "t \<le> t'" for c buf t'
    using that(2) by (simp add: scheduled_def run_def onAudio_scheduled[OF oc that(1)]) (simp add: s1)
  then show ?thesis
    by (simp add: s1 stopped_fold_stop_node)
qed

theorem flush_on_interrupt_witness:
  "audioQueue (onInterrupted 7 ((listening 0)\<lparr>nextStartTime := 100, audioQueue := [0],
       nodes := [\<lparr>buffer = \<lparr>channelData = [0], sampleRate = 24000\<rparr>, startTime = 6, stopped = False\<rparr>]\<rparr>)) = []
   \<and> nextStartTime (onInterrupted 7 ((listening 0)\<lparr>nextStartTime := 100, audioQueue := [0],
       nodes := [\<lparr>buffer = \<lparr>channelData = [0], sampleRate = 24000\<rparr>, startTime = 6, stopped = False\<rparr>]\<rparr>)) = 7
   \<and> scheduled [Audio (encode [0, 0]) 8] (onInterrupted 7 ((listening 0)\<lparr>nextStartTime := 100, audioQueue := [0],
       nodes := [\<lparr>buffer = \<lparr>channelData = [0], sampleRate = 24000\<rparr>, startTime = 6, stopped = False\<rparr>]\<rparr>))
      = [\<lparr>buffer = \<lparr>channelData = [0], sampleRate = 24000\<rparr>, startTime = 8, stopped = False\<rparr>]"
proof -
  let ?s = "(listening 0)\<lparr>nextStartTime := 100, audioQueue := [0],
       nodes := [\<lparr>buffer = \<lparr>channelData = [0], sampleRate = 24000\<rparr>, startTime = 6, stopped = False\<rparr>]\<rparr>"
  have h: "outputContext ?s" by (simp add: listening_def connecting_def)
  have d: "pcmToAudioBuffer (encode [0, 0]) 24000 = Inr \<lparr>channelData = [0], sampleRate = 24000\<rparr> \<and> (7::real) \<le> 8"
    by (simp add: one_sample)
  from flush_on_interrupt[OF h, of 7] d show ?thesis by blast
qed

text \<open>
  C7. A chunk whose decoding fails is dropped: the handler returns normally, the cursor,
  the queue, the nodes and the session status are as before, the failure is logged (when
  there is an output context; without one the chunk is not even decoded), and every later
  chunk is scheduled as it would have been had the failing one never arrived.
\<close>

theorem decode_failure_is_dropped:
  assumes "pcmToAudioBuffer c 24000 = Inl e"
  shows "onAudio c t s =
           (if outputContext s then s\<lparr>console := console s @ [''Audio Decode Error'']\<rparr> else s)
       \<and> nextStartTime (onAudio c t s) = nextStartTime s
       \<and> audioQueue (onAudio c t s) = audioQueue s
       \<and> nodes (onAudio c t s) = nodes s
       \<and> isActive (onAudio c t s) = isActive s
       \<and> status (onAudio c t s) = status s
       \<and> error (onAudio c t s) = error s
       \<and> (\<forall>c' t'. nodes (onAudio c' t' (onAudio c t s)) = nodes (onAudio c' t' s)
             \<and> nextStartTime (onAudio c' t' (onAudio c t s)) = nextStartTime (onAudio c' t' s)
             \<and> audioQueue (onAudio c' t' (onAudio c t s)) = audioQueue (onAudio c' t' s))"
proof -
  have a: "onAudio c t s =
           (if outputContext s then s\<lparr>console := console s @ [''Audio Decode Error'']\<rparr> else s)"
    using assms by (simp add: onAudio_def)
  have b: "nodes (onAudio c' t' (onAudio c t s)) = nodes (onAudio c' t' s)
             \<and> nextStartTime (onAudio c' t' (onAudio c t s)) = nextStartTime (onAudio c' t' s)
             \<and> audioQueue (onAudio c' t' (onAudio c t s)) = audioQueue (onAudio c' t' s)" for c' t'
    unfolding a by (simp add: onAudio_def Let_def split: sum.splits)
  show ?thesis using b by (simp add: a)
qed

theorem decode_failure_is_dropped_witness:
  "onAudio (encode [0]) 1 (listening 0) =
           (if outputContext (listening 0) then (listening 0)\<lparr>console := console (listening 0) @ [''Audio Decode Error'']\<rparr> else listening 0)
       \<and> nextStartTime (onAudio (encode [0]) 1 (listening 0)) = nextStartTime (listening 0)
       \<and> audioQueue (onAudio (encode [0]) 1 (listening 0)) = audioQueue (listening 0)
       \<and> nodes (onAudio (encode [0]) 1 (listening 0)) = nodes (listening 0)"
proof -
  have h: "pcmToAudioBuffer (encode [0]) 24000 = Inl RangeError" by (simp add: pcm_encode)
  from decode_failure_is_dropped[OF h, of 1 "listening 0"] show ?thesis by blast
qed

text \<open>
  C8. \<open>onInterrupted\<close> touches the scheduler only: the activity flag, the status, the
  error, both audio contexts, the send and disconnect closures, the outbound chunks and
  the log are as before, and so are the buffer and the start time of every node (the flush
  sets \<open>stopped\<close>, empties the queue and moves the cursor). A listening session is
  still listening.
\<close>

theorem onInterrupted_frame:
  "isActive (onInterrupted t s) = isActive s
   \<and> status (onInterrupted t s) = status s
   \<and> error (onInterrupted t s) = error s
   \<and> inputContext (onInterrupted t s) = inputContext s
   \<and> outputContext (onInterrupted t s) = outputContext s
   \<and> sendAudio (onInterrupted t s) = sendAudio s
   \<and> disconnect (onInterrupted t s) = disconnect s
   \<and> outbound (onInterrupted t s) = outbound s
   \<and> console (onInterrupted t s) = console s
   \<and> map buffer (nodes (onInterrupted t s)) = map buffer (nodes s)
   \<and> map startTime (nodes (onInterrupted t s)) = map startTime (nodes s)
   \<and> status (onInterrupted t (listening t0)) = ''Listening...''
   \<and> isActive (onInterrupted t (listening t0))"
  by (simp add: onInterrupted_def stopAllPlayback_def Let_def fold_stop_node_keeps
      listening_def connecting_def)


section \<open>The capture pipeline\<close>






end
